theory Spec2Isabelle
  imports Main "HOL-Library.AList" "HOL-Library.Multiset"
begin

chapter \<open>The program\<close>

section \<open>Data model\<close>

text \<open>
  Strings are lists of characters.  A JavaScript object with string keys is an association
  list in insertion order, which is the order \<^verbatim>\<open>Object.keys\<close> enumerates for keys
  that are not array indices (GraphQL names start with a letter or an underscore).  Reading a
  property is \<^const>\<open>map_of\<close>; assigning one is \<^const>\<open>AList.update\<close>, which
  overwrites an existing key in place and appends a new key at the end.

  Only own properties are modelled, as the index signatures of the source declare them: a
  key that names a property of \<^verbatim>\<open>Object.prototype\<close> (\<^verbatim>\<open>constructor\<close>,
  \<^verbatim>\<open>toString\<close>, ...) reads as an inherited value in the source and is outside the model.
  The source is a module, hence strict code: assigning a property of a boolean raises.
\<close>

datatype error =
    TypeError           \<comment> \<open>creating a property on a boolean (the module is strict code)\<close>
  | RangeError          \<comment> \<open>the call stack is exhausted\<close>
  | RegExpUnsupported   \<comment> \<open>a pattern with a metacharacter other than the wildcard\<close>

text \<open>The value of a directive argument: only its kind and, for the two kinds the source
  inspects, its payload.\<close>

datatype value_node = BooleanValue bool | Variable string | OtherValue

datatype argument_node = Argument (arg_name: string) (arg_value: value_node)

datatype directive_node = Directive (dir_name: string) (dir_arguments: "argument_node list")

text \<open>A selection node.  A field may lack a selection set; an inline fragment always has
  one; a fragment spread has none.\<close>

datatype selection_node =
    Field string "directive_node list" "selection_node list option"
  | FragmentSpread string "directive_node list"
  | InlineFragment "directive_node list" "selection_node list"

text \<open>The fragment table maps a fragment name to the selections of its definition.\<close>

type_synonym fragment_item = "string \<Rightarrow> selection_node list option"

text \<open>Variable bindings: the source only observes the truthiness of a bound value, so a
  binding is a boolean; an unbound variable reads as \<^verbatim>\<open>undefined\<close>.\<close>

type_synonym variables_values = "string \<Rightarrow> bool option"

datatype skip_value = SBool bool | STree "(string \<times> skip_value) list"

type_synonym skip_tree = "(string \<times> skip_value) list"

datatype map_result_key = MFalse | MTree "(string \<times> map_result_key) list"

type_synonym map_result = "(string \<times> map_result_key) list"

type_synonym fields_projection = "(string \<times> nat) list"

record traverse_options =
  fragments :: fragment_item
  vars :: variables_values
  withVars :: bool

record fields_list_options =
  path :: "string option"
  transform :: "(string \<Rightarrow> string option) option"
  withDirectives :: "bool option"
  keepParentField :: "bool option"
  skip :: "string list option"

record resolve_info =
  fieldNodes :: "selection_node list option"
  fieldASTs :: "selection_node list option"
  fieldName :: string
  info_fragments :: fragment_item
  variableValues :: variables_values

section \<open>Node access and directives\<close>

fun getNodes :: "selection_node \<Rightarrow> selection_node list" where
  "getNodes (Field n ds (Some sels)) = sels"
| "getNodes (Field n ds None) = []"
| "getNodes (FragmentSpread n ds) = []"
| "getNodes (InlineFragment ds sels) = sels"

fun node_directives :: "selection_node \<Rightarrow> directive_node list" where
  "node_directives (Field n ds ss) = ds"
| "node_directives (FragmentSpread n ds) = ds"
| "node_directives (InlineFragment ds sels) = ds"

fun node_name :: "selection_node \<Rightarrow> string option" where
  "node_name (Field n ds ss) = Some n"
| "node_name (FragmentSpread n ds) = Some n"
| "node_name (InlineFragment ds sels) = None"

fun checkValue :: "string \<Rightarrow> bool \<Rightarrow> bool" where
  "checkValue name v =
     (if name = ''skip'' then \<not> v else if name = ''include'' then v else True)"

text \<open>An unbound variable is \<^verbatim>\<open>undefined\<close>, which is falsy.\<close>

fun var_truthy :: "variables_values \<Rightarrow> string \<Rightarrow> bool" where
  "var_truthy vs x = (case vs x of Some b \<Rightarrow> b | None \<Rightarrow> False)"

fun verifyDirectiveArg :: "string \<Rightarrow> argument_node \<Rightarrow> variables_values \<Rightarrow> bool" where
  "verifyDirectiveArg name arg vs =
     (case arg_value arg of
        BooleanValue b \<Rightarrow> checkValue name b
      | Variable x \<Rightarrow> checkValue name (var_truthy vs x)
      | OtherValue \<Rightarrow> True)"

text \<open>The loop of \<^verbatim>\<open>verifyDirective\<close> over the arguments; an absent argument list is the
  empty list.\<close>

fun verifyDirective_args :: "string \<Rightarrow> argument_node list \<Rightarrow> variables_values \<Rightarrow> bool" where
  "verifyDirective_args name [] vs = True"
| "verifyDirective_args name (arg # args) vs =
     (if \<not> verifyDirectiveArg name arg vs then False else verifyDirective_args name args vs)"

fun verifyDirective :: "directive_node \<Rightarrow> variables_values \<Rightarrow> bool" where
  "verifyDirective directive vs =
     (let directiveName = dir_name directive in
      if directiveName \<notin> set [''include'', ''skip''] then True
      else verifyDirective_args directiveName (dir_arguments directive) vs)"

fun verifyDirectives :: "directive_node list \<Rightarrow> variables_values \<Rightarrow> bool" where
  "verifyDirectives [] vs = True"
| "verifyDirectives (directive # directives) vs =
     (if \<not> verifyDirective directive vs then False else verifyDirectives directives vs)"

section \<open>Skip patterns\<close>

text \<open>\<^verbatim>\<open>s.split('.')\<close>: never empty; the empty string splits into one empty segment.\<close>

fun split_dot :: "string \<Rightarrow> string list" where
  "split_dot [] = [[]]"
| "split_dot (c # cs) =
     (if c = CHR ''.'' then [] # split_dot cs
      else (case split_dot cs of w # ws \<Rightarrow> (c # w) # ws | [] \<Rightarrow> [[c]]))"

text \<open>Truthiness of a property read from a skip tree: an absent key reads as
  \<^verbatim>\<open>undefined\<close>.\<close>

fun skip_truthy :: "skip_value option \<Rightarrow> bool" where
  "skip_truthy None = False"
| "skip_truthy (Some (SBool b)) = b"
| "skip_truthy (Some (STree t)) = True"

text \<open>
  The inner loop of \<^verbatim>\<open>skipTree\<close> from index \<open>i\<close> on: the remaining segments and the
  node \<^verbatim>\<open>propTree\<close> points at; the result is that node after the in-place updates.  Once
  \<^verbatim>\<open>propTree\<close> is a boolean, a further segment reads \<^verbatim>\<open>undefined\<close> from it and the
  assignment that follows raises.
\<close>

function skipTree_props :: "string list \<Rightarrow> skip_value \<Rightarrow> error + skip_value" where
  "skipTree_props [] propTree = Inr propTree"
| "skipTree_props (prop # rest) (SBool b) = Inl TypeError"
| "skipTree_props (prop # rest) (STree t) =
     (let all = (case rest of [] \<Rightarrow> False | nxt # _ \<Rightarrow> nxt = ''*'') in
      if \<not> skip_truthy (map_of t prop) then
        (case skipTree_props (if all then tl rest else rest)
                (if rest = [] \<or> all then SBool True else STree []) of
           Inl e \<Rightarrow> Inl e
         | Inr v \<Rightarrow> Inr (STree (AList.update prop v t)))
      else
        (case skipTree_props rest (the (map_of t prop)) of
           Inl e \<Rightarrow> Inl e
         | Inr v \<Rightarrow> Inr (STree (AList.update prop v t))))"
  by pat_completeness auto

termination
  by (relation "measure (\<lambda>(props, t). length props)") (auto split: list.splits)

text \<open>The outer loop of \<^verbatim>\<open>skipTree\<close> over the patterns; an error ends the whole call.\<close>

fun skipTree_patterns :: "string list \<Rightarrow> skip_value \<Rightarrow> error + skip_value" where
  "skipTree_patterns [] tree = Inr tree"
| "skipTree_patterns (pattern # patterns) tree =
     (case skipTree_props (split_dot pattern) tree of
        Inl e \<Rightarrow> Inl e
      | Inr tree' \<Rightarrow> skipTree_patterns patterns tree')"

definition skipTree :: "string list \<Rightarrow> error + skip_value" where
  "skipTree skip_patterns = skipTree_patterns skip_patterns (STree [])"

section \<open>Skip-scope resolution\<close>

text \<open>
  \<^verbatim>\<open>new RegExp(pattern.replace(RX_AST, '.*')).test(node)\<close>.  The model covers the
  patterns whose characters other than \<^verbatim>\<open>*\<close> stand for themselves in a regular
  expression; for any other pattern it answers \<^const>\<open>RegExpUnsupported\<close> and says
  nothing about the source.  A dot of the regular expression matches every character but a
  line terminator.
\<close>

definition rx_special :: "char \<Rightarrow> bool" where
  "rx_special c = (c \<in> set ''^$.+?()[]{}|/'' \<or> c = CHR 0x5C)"

definition line_terminator :: "char \<Rightarrow> bool" where
  "line_terminator c = (c = CHR 0x0A \<or> c = CHR 0x0D)"

text \<open>Does the expression match at the start of the text (a prefix of it)?\<close>

fun rx_match_here :: "string \<Rightarrow> string \<Rightarrow> bool" where
  "rx_match_here [] s = True"
| "rx_match_here (c # p) [] = (c = CHR ''*'' \<and> rx_match_here p [])"
| "rx_match_here (c # p) (x # xs) =
     (if c = CHR ''*''
      then rx_match_here p (x # xs) \<or> (\<not> line_terminator x \<and> rx_match_here (c # p) xs)
      else x = c \<and> rx_match_here p xs)"

text \<open>\<^verbatim>\<open>test\<close> without flags searches from every start position.\<close>

fun rx_search :: "string \<Rightarrow> string \<Rightarrow> bool" where
  "rx_search p [] = rx_match_here p []"
| "rx_search p (x # xs) = (rx_match_here p (x # xs) \<or> rx_search p xs)"

definition rx_test :: "string \<Rightarrow> string \<Rightarrow> error + bool" where
  "rx_test pattern node =
     (if \<exists>c \<in> set pattern. rx_special c then Inl RegExpUnsupported
      else Inr (rx_search pattern node))"

text \<open>The loop over the wildcard keys, each with the value \<^verbatim>\<open>skip[pattern]\<close> it
  enumerates.\<close>

fun verifySkip_patterns ::
  "string \<Rightarrow> (string \<times> skip_value) list \<Rightarrow> skip_value \<Rightarrow> error + skip_value" where
  "verifySkip_patterns node [] nodeTree = Inr nodeTree"
| "verifySkip_patterns node ((pattern, v) # patterns) nodeTree =
     (case rx_test pattern node of
        Inl e \<Rightarrow> Inl e
      | Inr True \<Rightarrow> (if v = SBool True then Inr v else verifySkip_patterns node patterns v)
      | Inr False \<Rightarrow> verifySkip_patterns node patterns nodeTree)"

text \<open>A boolean scope has no own keys: reading a property of \<^verbatim>\<open>true\<close> gives
  \<^verbatim>\<open>undefined\<close> and \<^verbatim>\<open>Object.keys(true)\<close> is empty.\<close>

fun verifySkip :: "string \<Rightarrow> skip_value \<Rightarrow> error + skip_value" where
  "verifySkip node (SBool b) = Inr (SBool False)"
| "verifySkip node (STree t) =
     (if skip_truthy (map_of t node) then Inr (the (map_of t node))
      else verifySkip_patterns node (filter (\<lambda>(pattern, v). CHR ''*'' \<in> set pattern) t)
             (SBool False))"

section \<open>The selection-tree walker\<close>

text \<open>
  \<^verbatim>\<open>traverse\<close> mutates \<^verbatim>\<open>root\<close> in place and returns it; every object it creates is
  fresh, so no two map nodes alias and the model passes the map and returns the updated one.
  The first argument bounds the depth of nested calls: the source recurses without a guard
  against a fragment that includes itself, and runs out of stack.
\<close>

fun traverse ::
  "nat \<Rightarrow> selection_node list \<Rightarrow> map_result \<Rightarrow> traverse_options \<Rightarrow> skip_value
     \<Rightarrow> error + map_result" where
  "traverse 0 nodes root opts skp = Inl RangeError"
| "traverse (Suc d) [] root opts skp = Inr root"
| "traverse (Suc d) (node # nodes) root opts skp =
     (if withVars opts \<and> \<not> verifyDirectives (node_directives node) (vars opts)
      then traverse (Suc d) nodes root opts skp
      else (case node_name node of
        None \<Rightarrow>
          (if getNodes node \<noteq> [] then
             (case traverse d (getNodes node) root opts skp of
                Inl e \<Rightarrow> Inl e
              | Inr root' \<Rightarrow> traverse (Suc d) nodes root' opts skp)
           else traverse (Suc d) nodes root opts skp)
      | Some name \<Rightarrow>
          (case fragments opts name of
             Some fragment \<Rightarrow>
               (case traverse d fragment root opts skp of
                  Inl e \<Rightarrow> Inl e
                | Inr root' \<Rightarrow> traverse (Suc d) nodes root' opts skp)
           | None \<Rightarrow>
               (case verifySkip name skp of
                  Inl e \<Rightarrow> Inl e
                | Inr nodeSkip \<Rightarrow>
                    (if nodeSkip \<noteq> SBool True then
                       (if getNodes node \<noteq> [] then
                          (case traverse d (getNodes node)
                                  (case map_of root name of Some (MTree m) \<Rightarrow> m | _ \<Rightarrow> [])
                                  opts nodeSkip of
                             Inl e \<Rightarrow> Inl e
                           | Inr m' \<Rightarrow>
                               traverse (Suc d) nodes (AList.update name (MTree m') root) opts skp)
                        else
                          traverse (Suc d) nodes
                            (AList.update name
                               (case map_of root name of Some (MTree m) \<Rightarrow> MTree m | _ \<Rightarrow> MFalse)
                               root)
                            opts skp)
                     else traverse (Suc d) nodes root opts skp)))))"

section \<open>Branch extraction and the entry resolver\<close>

text \<open>The loop of \<^verbatim>\<open>getBranch\<close> over the segments of the path: a missing entry and a
  leaf are both falsy.\<close>

fun getBranch_segments :: "string list \<Rightarrow> map_result \<Rightarrow> map_result" where
  "getBranch_segments [] tree = tree"
| "getBranch_segments (fname # rest) tree =
     (case map_of tree fname of
        Some (MTree branch) \<Rightarrow> getBranch_segments rest branch
      | _ \<Rightarrow> [])"

fun getBranch :: "map_result \<Rightarrow> string option \<Rightarrow> map_result" where
  "getBranch tree None = tree"
| "getBranch tree (Some p) =
     (if p = [] then tree else getBranch_segments (split_dot p) tree)"

text \<open>\<^verbatim>\<open>verifyFieldNode\<close>: the first node named like the current field, if it has a
  selection set.\<close>

fun has_selectionSet :: "selection_node \<Rightarrow> bool" where
  "has_selectionSet (Field n ds ss) = (ss \<noteq> None)"
| "has_selectionSet (FragmentSpread n ds) = False"
| "has_selectionSet (InlineFragment ds sels) = True"

fun verifyFieldNode :: "selection_node list \<Rightarrow> string \<Rightarrow> selection_node option" where
  "verifyFieldNode nodes fname =
     (case find (\<lambda>node. node_name node = Some fname) nodes of
        None \<Rightarrow> None
      | Some fieldNode \<Rightarrow> if has_selectionSet fieldNode then Some fieldNode else None)"

text \<open>An absent info object is \<open>None\<close>.  An empty array is truthy, so an empty primary
  list is kept and the legacy list is not consulted.\<close>

fun verifyInfo :: "resolve_info option \<Rightarrow> selection_node option" where
  "verifyInfo None = None"
| "verifyInfo (Some info) =
     (case (case fieldNodes info of None \<Rightarrow> fieldASTs info | Some ns \<Rightarrow> Some ns) of
        None \<Rightarrow> None
      | Some ns \<Rightarrow> verifyFieldNode ns (fieldName info))"

text \<open>Absent options stay all-undefined; present options get the directive default.\<close>

definition no_options :: fields_list_options where
  "no_options = \<lparr> path = None, transform = None, withDirectives = None,
                  keepParentField = None, skip = None \<rparr>"

fun parseOptions :: "fields_list_options option \<Rightarrow> fields_list_options" where
  "parseOptions None = no_options"
| "parseOptions (Some options) =
     (if withDirectives options = None then options\<lparr> withDirectives := Some True \<rparr>
      else options)"

fun toDotNotation :: "string \<Rightarrow> string \<Rightarrow> string" where
  "toDotNotation parent child = (if parent \<noteq> [] then parent @ ''.'' else []) @ child"

section \<open>Public operations\<close>

text \<open>The arguments of \<^verbatim>\<open>traverse\<close> are evaluated first, so the skip patterns are
  compiled before the walk starts.  The first argument is the stack bound of the walk.\<close>

fun fieldsMap ::
  "nat \<Rightarrow> resolve_info option \<Rightarrow> fields_list_options option \<Rightarrow> error + map_result" where
  "fieldsMap d info options =
     (case verifyInfo info of
        None \<Rightarrow> Inr []
      | Some fieldNode \<Rightarrow>
          (let po = parseOptions options in
           case skipTree (case skip po of None \<Rightarrow> [] | Some ps \<Rightarrow> ps) of
             Inl e \<Rightarrow> Inl e
           | Inr st \<Rightarrow>
               (case traverse d (getNodes fieldNode) []
                       \<lparr> fragments = info_fragments (the info),
                         vars = variableValues (the info),
                         withVars = (withDirectives po = Some True) \<rparr> st of
                  Inl e \<Rightarrow> Inl e
                | Inr tree \<Rightarrow> Inr (getBranch tree (path po)))))"

text \<open>A transform entry applies when it is a non-empty string.\<close>

fun transform_of :: "fields_list_options option \<Rightarrow> string \<Rightarrow> string option" where
  "transform_of options k =
     (case options of
        None \<Rightarrow> None
      | Some opts \<Rightarrow>
          (case transform opts of
             None \<Rightarrow> None
           | Some tr \<Rightarrow> (case tr k of Some r \<Rightarrow> if r \<noteq> [] then Some r else None | None \<Rightarrow> None)))"

text \<open>\<^verbatim>\<open>fieldsList\<close> defaults absent options to an empty object before it calls
  \<^verbatim>\<open>fieldsMap\<close>.\<close>

fun fieldsList ::
  "nat \<Rightarrow> resolve_info option \<Rightarrow> fields_list_options option \<Rightarrow> error + string list" where
  "fieldsList d info options =
     (case fieldsMap d info (Some (case options of None \<Rightarrow> no_options | Some opts \<Rightarrow> opts)) of
        Inl e \<Rightarrow> Inl e
      | Inr m \<Rightarrow>
          Inr (map (\<lambda>field. case transform_of options field of Some r \<Rightarrow> r | None \<Rightarrow> field)
                 (map fst m)))"

fun keeps_parent :: "fields_list_options option \<Rightarrow> bool" where
  "keeps_parent None = False"
| "keeps_parent (Some opts) = (keepParentField opts = Some True)"

text \<open>The \<^verbatim>\<open>for\<close> loop over the keys of \<^verbatim>\<open>stack[0].tree\<close>: it pushes onto the end of
  the work list and records keys in the projection.\<close>

fun projection_keys ::
  "fields_list_options option \<Rightarrow> string \<Rightarrow> map_result
     \<Rightarrow> (string \<times> map_result) list \<times> fields_projection
     \<Rightarrow> (string \<times> map_result) list \<times> fields_projection" where
  "projection_keys options node [] (stack, m) = (stack, m)"
| "projection_keys options node ((j, MTree sub) # rest) (stack, m) =
     projection_keys options node rest
       (stack @ [(toDotNotation node j, sub)],
        if keeps_parent options then AList.update (toDotNotation node j) 1 m else m)"
| "projection_keys options node ((j, MFalse) # rest) (stack, m) =
     projection_keys options node rest
       (stack,
        AList.update
          (case transform_of options (toDotNotation node j) of
             Some r \<Rightarrow> r | None \<Rightarrow> toDotNotation node j) 1 m)"

text \<open>The number of sub-maps of a presence map, itself included: what the work list
  still has to expand.\<close>

fun key_size :: "map_result_key \<Rightarrow> nat" where
  "key_size MFalse = 0"
| "key_size (MTree kvs) = Suc (sum_list (map (\<lambda>kv. key_size (snd kv)) kvs))"

definition stack_size :: "(string \<times> map_result) list \<Rightarrow> nat" where
  "stack_size stack = sum_list (map (\<lambda>(n, t). key_size (MTree t)) stack)"

text \<open>The \<^verbatim>\<open>while\<close> loop: expand the head of the work list, then shift it off.\<close>

function projection_loop ::
  "fields_list_options option \<Rightarrow> (string \<times> map_result) list \<Rightarrow> fields_projection
     \<Rightarrow> fields_projection" where
  "projection_loop options [] m = m"
| "projection_loop options ((node, tree) # stack) m =
     (case projection_keys options node tree ((node, tree) # stack, m) of
        (stack', m') \<Rightarrow> projection_loop options (tl stack') m')"
  by pat_completeness auto
termination
proof (relation "measure (\<lambda>(options, stack, m). stack_size stack)", goal_cases)
  case 1
  show ?case by simp
next
  case (2 options node tree stack m stack' m')
  let ?pushed = "map (\<lambda>(j, v). (toDotNotation node j, case v of MTree sub \<Rightarrow> sub | MFalse \<Rightarrow> []))
                   (filter (\<lambda>(j, v). v \<noteq> MFalse) tree)"
  have grow: "fst (projection_keys options node' tree' (stack0, m0)) =
      stack0 @ map (\<lambda>(j, v). (toDotNotation node' j, case v of MTree sub \<Rightarrow> sub | MFalse \<Rightarrow> []))
                 (filter (\<lambda>(j, v). v \<noteq> MFalse) tree')" for node' tree' stack0 m0
    by (induction options node' tree' "(stack0, m0)" arbitrary: stack0 m0
          rule: projection_keys.induct) auto
  have "stack' = fst (projection_keys options node tree ((node, tree) # stack, m))"
    using 2 by (metis fst_conv)
  then have s: "tl stack' = stack @ ?pushed"
    by (simp only: grow) simp
  have "sum_list (map (\<lambda>(n, t). key_size (MTree t)) ?pushed)
          = sum_list (map (\<lambda>kv. key_size (snd kv)) tree)"
    by (induction tree) (auto split: map_result_key.splits)
  then show ?case
    unfolding s by (simp add: stack_size_def)
qed

fun fieldsProjection ::
  "nat \<Rightarrow> resolve_info option \<Rightarrow> fields_list_options option \<Rightarrow> error + fields_projection"
  where
  "fieldsProjection d info options =
     (case fieldsMap d info options of
        Inl e \<Rightarrow> Inl e
      | Inr tree \<Rightarrow> Inr (projection_loop options [([], tree)] []))"

chapter \<open>Notions used to state the properties\<close>

section \<open>Wildcard expressions and skip trees\<close>




section \<open>Presence maps\<close>


text \<open>The key paths of a presence map that lead to a sub-map (an intermediate key).\<close>

inductive inner_path :: "map_result \<Rightarrow> string list \<Rightarrow> bool" where
  inner_here: "(k, MTree sub) \<in> set tree \<Longrightarrow> inner_path tree [k]"
| inner_below: "(k, MTree sub) \<in> set tree \<Longrightarrow> inner_path sub p \<Longrightarrow> inner_path tree (k # p)"

text \<open>The key paths of a presence map: the field names at each sibling level.\<close>

inductive map_path :: "map_result \<Rightarrow> string list \<Rightarrow> bool" where
  path_key: "(k, v) \<in> set m \<Longrightarrow> map_path m [k]"
| path_below: "(k, MTree sub) \<in> set m \<Longrightarrow> map_path sub p \<Longrightarrow> map_path m (k # p)"


fun rec_paths :: "bool \<Rightarrow> map_result_key \<Rightarrow> string list list" where
  "rec_paths keep MFalse = []"
| "rec_paths keep (MTree kvs) =
     concat (map (\<lambda>kv. case snd kv of
                          MFalse \<Rightarrow> [[fst kv]]
                        | MTree sub \<Rightarrow> (if keep then [[fst kv]] else [])
                            @ map ((#) (fst kv)) (rec_paths keep (snd kv))) kvs)"


definition pushed :: "string \<Rightarrow> map_result \<Rightarrow> (string \<times> map_result) list" where
  "pushed node tree =
     map (\<lambda>(j, v). (toDotNotation node j, case v of MTree sub \<Rightarrow> sub | MFalse \<Rightarrow> []))
       (filter (\<lambda>(j, v). v \<noteq> MFalse) tree)"


text \<open>A GraphQL name is not empty and has no dot.  A well-formed presence map has, at
  every level, distinct keys (it is an object) that are names.\<close>

definition valid_name :: "string \<Rightarrow> bool" where
  "valid_name n = (n \<noteq> [] \<and> CHR ''.'' \<notin> set n)"

fun wf_key :: "map_result_key \<Rightarrow> bool" where
  "wf_key MFalse = True"
| "wf_key (MTree kvs) =
     (distinct (map fst kvs) \<and> (\<forall>kv \<in> set kvs. valid_name (fst kv) \<and> wf_key (snd kv)))"

section \<open>Selections\<close>

text \<open>The names of a selection, of a fragment table and of an info object are names.\<close>

fun node_ok :: "selection_node \<Rightarrow> bool" where
  "node_ok (Field n ds ss) =
     (valid_name n \<and> (case ss of None \<Rightarrow> True | Some sels \<Rightarrow> \<forall>s \<in> set sels. node_ok s))"
| "node_ok (FragmentSpread n ds) = valid_name n"
| "node_ok (InlineFragment ds sels) = (\<forall>s \<in> set sels. node_ok s)"

definition frags_ok :: "fragment_item \<Rightarrow> bool" where
  "frags_ok fs = (\<forall>n sels. fs n = Some sels \<longrightarrow> (\<forall>s \<in> set sels. node_ok s))"


text \<open>
  The field paths of a selection after inlining, following the words of the specification:
  a field contributes its name and, beneath it, the paths of its children; an inline
  fragment contributes the paths of its selections; a fragment spread contributes the paths
  of the selections of the fragment it names.
\<close>

inductive reach :: "fragment_item \<Rightarrow> selection_node \<Rightarrow> string list \<Rightarrow> bool" where
  reach_field: "reach F (Field n ds ss) [n]"
| reach_child: "s \<in> set sels \<Longrightarrow> reach F s p \<Longrightarrow> reach F (Field n ds (Some sels)) (n # p)"
| reach_inline: "s \<in> set sels \<Longrightarrow> reach F s p \<Longrightarrow> reach F (InlineFragment ds sels) p"
| reach_spread: "F n = Some sels \<Longrightarrow> s \<in> set sels \<Longrightarrow> reach F s p
    \<Longrightarrow> reach F (FragmentSpread n ds) p"

definition reachable :: "fragment_item \<Rightarrow> selection_node list \<Rightarrow> string list \<Rightarrow> bool" where
  "reachable F nodes p = (\<exists>s \<in> set nodes. reach F s p)"

text \<open>
  A selection without directives in which the node kinds agree with the fragment table: no
  field is named like a fragment, and every spread names a fragment of the table.
\<close>

fun plain_node :: "fragment_item \<Rightarrow> selection_node \<Rightarrow> bool" where
  "plain_node F (Field n ds ss) =
     (F n = None \<and> ds = [] \<and> (case ss of None \<Rightarrow> True | Some sels \<Rightarrow> \<forall>s \<in> set sels. plain_node F s))"
| "plain_node F (FragmentSpread n ds) = (F n \<noteq> None \<and> ds = [])"
| "plain_node F (InlineFragment ds sels) = (ds = [] \<and> (\<forall>s \<in> set sels. plain_node F s))"

definition plain_table :: "fragment_item \<Rightarrow> bool" where
  "plain_table F = (\<forall>n sels. F n = Some sels \<longrightarrow> (\<forall>s \<in> set sels. plain_node F s))"

chapter \<open>Properties\<close>

section \<open>Directive evaluation\<close>

lemma verifyDirective_args_all:
  "verifyDirective_args name args vs = (\<forall>arg \<in> set args. verifyDirectiveArg name arg vs)"
  by (induction args) auto





section \<open>Wildcard matching\<close>







section \<open>Skip trees\<close>



























section \<open>Branch extraction\<close>





section \<open>Entry resolution and the worked example\<close>

lemma fieldsMap_no_node:
  "verifyInfo info = None \<Longrightarrow> fieldsMap d info options = Inr []"
  by simp

text \<open>
  C6.  When the info object is absent, or has neither the primary nor the legacy list of
  field nodes, or the first field node named like the current field has no selection set,
  the three public operations return empty results: the entry resolver answers before the
  skip patterns are compiled or anything is walked, so no error can arise, whatever the
  options and the stack bound.
\<close>

theorem absent_info_gives_empty:
  "(info = None
    \<or> (info = Some i \<and> fieldNodes i = None \<and> fieldASTs i = None)
    \<or> (info = Some i
        \<and> (case fieldNodes i of None \<Rightarrow> fieldASTs i | Some l \<Rightarrow> Some l) = Some ns
        \<and> find (\<lambda>n. node_name n = Some (fieldName i)) ns = Some node
        \<and> \<not> has_selectionSet node))
   \<longrightarrow> fieldsMap d info options = Inr []
       \<and> fieldsList d info options = Inr []
       \<and> fieldsProjection d info options = Inr []"
proof
  assume h: "info = None
    \<or> (info = Some i \<and> fieldNodes i = None \<and> fieldASTs i = None)
    \<or> (info = Some i
        \<and> (case fieldNodes i of None \<Rightarrow> fieldASTs i | Some l \<Rightarrow> Some l) = Some ns
        \<and> find (\<lambda>n. node_name n = Some (fieldName i)) ns = Some node
        \<and> \<not> has_selectionSet node)"
  have "verifyInfo info = None"
    using h by (elim disjE) simp_all
  then have m: "fieldsMap d info opts = Inr []" for opts
    by (rule fieldsMap_no_node)
  then show "fieldsMap d info options = Inr []
       \<and> fieldsList d info options = Inr []
       \<and> fieldsProjection d info options = Inr []"
    by (simp del: fieldsMap.simps)
qed

theorem absent_info_gives_empty_witness:
  "fieldsMap 0
     (Some \<lparr> fieldNodes = None, fieldASTs = Some [Field ''name'' [] None], fieldName = ''name'',
             info_fragments = Map.empty, variableValues = Map.empty \<rparr>)
     (Some (no_options \<lparr> skip := Some [''a'', ''a.b''] \<rparr>)) = Inr []
   \<and> fieldsProjection 0
     (Some \<lparr> fieldNodes = None, fieldASTs = Some [Field ''name'' [] None], fieldName = ''name'',
             info_fragments = Map.empty, variableValues = Map.empty \<rparr>)
     (Some (no_options \<lparr> skip := Some [''a'', ''a.b''] \<rparr>)) = Inr []"
  using absent_info_gives_empty [where
      info = "Some \<lparr> fieldNodes = None, fieldASTs = Some [Field ''name'' [] None],
                     fieldName = ''name'', info_fragments = Map.empty,
                     variableValues = Map.empty \<rparr>"
      and i = "\<lparr> fieldNodes = None, fieldASTs = Some [Field ''name'' [] None],
                 fieldName = ''name'', info_fragments = Map.empty,
                 variableValues = Map.empty \<rparr>"
      and ns = "[Field ''name'' [] None]" and node = "Field ''name'' [] None" and d = 0
      and options = "Some (no_options \<lparr> skip := Some [''a'', ''a.b''] \<rparr>)"]
  by simp

text \<open>
  C2.  The selection \<^verbatim>\<open>{ a { b c } d }\<close> with the skip pattern \<^verbatim>\<open>a.c\<close>, directives
  honoured and none present: the presence map is \<^verbatim>\<open>{ a: { b: false }, d: false }\<close> and the
  projection without parent retention has exactly the keys \<^verbatim>\<open>a.b\<close> and \<^verbatim>\<open>d\<close> (the leaf
  \<^verbatim>\<open>d\<close> is recorded first), for every stack bound of at least two nested calls.
\<close>

theorem example_skip_a_c:
  "fieldsMap (Suc (Suc d))
     (Some \<lparr> fieldNodes = Some [Field ''q'' [] (Some
               [Field ''a'' [] (Some [Field ''b'' [] None, Field ''c'' [] None]),
                Field ''d'' [] None])],
             fieldASTs = None, fieldName = ''q'',
             info_fragments = Map.empty, variableValues = vs \<rparr>)
     (Some \<lparr> path = None, transform = None, withDirectives = Some True,
             keepParentField = None, skip = Some [''a.c''] \<rparr>)
     = Inr [(''a'', MTree [(''b'', MFalse)]), (''d'', MFalse)]
   \<and> fieldsProjection (Suc (Suc d))
     (Some \<lparr> fieldNodes = Some [Field ''q'' [] (Some
               [Field ''a'' [] (Some [Field ''b'' [] None, Field ''c'' [] None]),
                Field ''d'' [] None])],
             fieldASTs = None, fieldName = ''q'',
             info_fragments = Map.empty, variableValues = vs \<rparr>)
     (Some \<lparr> path = None, transform = None, withDirectives = Some True,
             keepParentField = None, skip = Some [''a.c''] \<rparr>)
     = Inr [(''d'', 1), (''a.b'', 1)]
   \<and> map_of [(''d'', 1::nat), (''a.b'', 1)] = [''a.b'' \<mapsto> 1, ''d'' \<mapsto> 1]"
proof -
  let ?info = "Some \<lparr> fieldNodes = Some [Field ''q'' [] (Some
               [Field ''a'' [] (Some [Field ''b'' [] None, Field ''c'' [] None]),
                Field ''d'' [] None])],
             fieldASTs = None, fieldName = ''q'',
             info_fragments = Map.empty, variableValues = vs \<rparr>"
  let ?opts = "Some \<lparr> path = None, transform = None, withDirectives = Some True,
             keepParentField = None, skip = Some [''a.c''] \<rparr>"
  have st: "skipTree [''a.c''] = Inr (STree [(''a'', STree [(''c'', SBool True)])])"
    by (simp add: skipTree_def)
  have m: "fieldsMap (Suc (Suc d)) ?info ?opts
     = Inr [(''a'', MTree [(''b'', MFalse)]), (''d'', MFalse)]"
    by (simp add: st)
  have p: "fieldsProjection (Suc (Suc d)) ?info ?opts = Inr [(''d'', 1), (''a.b'', 1)]"
    unfolding fieldsProjection.simps m by simp
  have e: "map_of [(''d'', 1::nat), (''a.b'', 1)] = [''a.b'' \<mapsto> 1, ''d'' \<mapsto> 1]"
    by (rule ext) simp
  from m p e show ?thesis by (simp only: simp_thms)
qed

section \<open>Invariants of the walker\<close>

text \<open>A walk that returns with some bound on the stack returns the same map with any larger
  bound.\<close>

lemma traverse_mono:
  "traverse d nodes root opts skp = Inr r \<Longrightarrow> traverse (Suc d) nodes root opts skp = Inr r"
proof (induction d nodes root opts skp arbitrary: r rule: traverse.induct)
  case (1 nodes root opts skp)
  then show ?case by simp
next
  case (2 d root opts skp)
  then show ?case by simp
next
  case (3 d node nodes root opts skp)
  note run = "3.prems"
  show ?case
  proof (cases "withVars opts \<and> \<not> verifyDirectives (node_directives node) (vars opts)")
    case True
    then have "traverse (Suc d) nodes root opts skp = Inr r" using run by simp
    then have "traverse (Suc (Suc d)) nodes root opts skp = Inr r"
      using "3.IH"(1) [OF True] by blast
    then show ?thesis using True by simp
  next
    case dir: False
    then have nd: "(withVars opts \<and> \<not> verifyDirectives (node_directives node) (vars opts)) = False"
      by simp
    show ?thesis
    proof (cases "node_name node")
      case None
      show ?thesis
      proof (cases "getNodes node \<noteq> []")
        case True
        then obtain root' where r1: "traverse d (getNodes node) root opts skp = Inr root'"
          and r2: "traverse (Suc d) nodes root' opts skp = Inr r"
          using run dir None by (simp split: sum.splits)
        have "traverse (Suc d) (getNodes node) root opts skp = Inr root'"
          using "3.IH"(2) [OF dir None True r1] .
        moreover have "traverse (Suc (Suc d)) nodes root' opts skp = Inr r"
          using "3.IH"(3) [OF dir None True r1 r2] .
        ultimately show ?thesis
          using None True by (simp del: traverse.simps add: traverse.simps(3) [of "Suc d"] nd)
      next
        case False
        then have "traverse (Suc d) nodes root opts skp = Inr r" using run dir None by simp
        then have "traverse (Suc (Suc d)) nodes root opts skp = Inr r"
          using "3.IH"(4) [OF dir None False] by blast
        then show ?thesis
          using None False by (simp del: traverse.simps add: traverse.simps(3) [of "Suc d"] nd)
      qed
    next
      case (Some name)
      note nm = Some
      show ?thesis
      proof (cases "fragments opts name")
        case (Some frag)
        then obtain root' where r1: "traverse d frag root opts skp = Inr root'"
          and r2: "traverse (Suc d) nodes root' opts skp = Inr r"
          using run dir nm by (simp split: sum.splits)
        have "traverse (Suc d) frag root opts skp = Inr root'"
          using "3.IH"(9) [OF dir nm Some r1] .
        moreover have "traverse (Suc (Suc d)) nodes root' opts skp = Inr r"
          using "3.IH"(10) [OF dir nm Some r1 r2] .
        ultimately show ?thesis
          using nm Some by (simp del: traverse.simps add: traverse.simps(3) [of "Suc d"] nd)
      next
        case None
        from run dir nm None obtain b where vs: "verifySkip name skp = Inr b"
          by (cases "verifySkip name skp") simp_all
        show ?thesis
        proof (cases "b \<noteq> SBool True")
          case False
          then have "traverse (Suc d) nodes root opts skp = Inr r"
            using run dir nm None vs by simp
          then have "traverse (Suc (Suc d)) nodes root opts skp = Inr r"
            using "3.IH"(8) [OF dir nm None vs False] by blast
          then show ?thesis
            using dir nm None vs False
            by (simp del: traverse.simps add: traverse.simps(3) [of "Suc d"] nd)
        next
          case nt: True
          show ?thesis
          proof (cases "getNodes node \<noteq> []")
            case True
            let ?m = "case map_of root name of None \<Rightarrow> [] | Some MFalse \<Rightarrow> []
                       | Some (MTree m) \<Rightarrow> m"
            obtain m' where r1: "traverse d (getNodes node) ?m opts b = Inr m'"
              and r2: "traverse (Suc d) nodes (AList.update name (MTree m') root) opts skp = Inr r"
              using run dir nm None vs nt True by (simp split: sum.splits)
            have "traverse (Suc d) (getNodes node) ?m opts b = Inr m'"
              using "3.IH"(5) [OF dir nm None vs nt True r1] .
            moreover have "traverse (Suc (Suc d)) nodes (AList.update name (MTree m') root) opts skp
                = Inr r"
              using "3.IH"(6) [OF dir nm None vs nt True r1 r2] .
            ultimately show ?thesis
              using dir nm None vs nt True
              by (simp del: traverse.simps add: traverse.simps(3) [of "Suc d"] nd)
          next
            case False
            let ?v = "case map_of root name of None \<Rightarrow> MFalse | Some MFalse \<Rightarrow> MFalse
                       | Some (MTree xa) \<Rightarrow> MTree xa"
            have r2: "traverse (Suc d) nodes (AList.update name ?v root) opts skp = Inr r"
              using run dir nm None vs nt False by simp
            have "traverse (Suc (Suc d)) nodes (AList.update name ?v root) opts skp = Inr r"
              using "3.IH"(7) [OF dir nm None vs nt False r2] .
            then show ?thesis
              using dir nm None vs nt False
              by (simp del: traverse.simps add: traverse.simps(3) [of "Suc d"] nd)
          qed
        qed
      qed
    qed
  qed
qed

lemma traverse_fuel:
  assumes "traverse d nodes root opts skp = Inr r" and "d \<le> d'"
  shows "traverse d' nodes root opts skp = Inr r"
proof -
  have "traverse (d + k) nodes root opts skp = Inr r" for k
  proof (induction k)
    case 0
    show ?case using assms(1) by simp
  next
    case (Suc k)
    then show ?case using traverse_mono [of "d + k"] by simp
  qed
  from this [of "d' - d"] assms(2) show ?thesis by simp
qed

lemma fieldsMap_fuel:
  assumes "fieldsMap d info options = Inr tree" and "d \<le> d'"
  shows "fieldsMap d' info options = Inr tree"
proof (cases "verifyInfo info")
  case None
  then show ?thesis using assms(1) by simp
next
  case (Some fieldNode)
  let ?po = "parseOptions options"
  let ?to = "\<lparr> fragments = info_fragments (the info), vars = variableValues (the info),
               withVars = (withDirectives ?po = Some True) \<rparr>"
  obtain st where st: "skipTree (case skip ?po of None \<Rightarrow> [] | Some ps \<Rightarrow> ps) = Inr st"
    using assms(1) Some by (auto simp: Let_def split: sum.splits)
  obtain t where t: "traverse d (getNodes fieldNode) [] ?to st = Inr t"
    and tree: "tree = getBranch t (path ?po)"
    using assms(1) Some st by (auto simp: Let_def split: sum.splits)
  have "traverse d' (getNodes fieldNode) [] ?to st = Inr t"
    using t assms(2) by (rule traverse_fuel)
  then show ?thesis using Some st tree by (simp add: Let_def)
qed

lemma getNodes_ok: "node_ok node \<Longrightarrow> \<forall>s \<in> set (getNodes node). node_ok s"
  by (cases node rule: getNodes.cases) auto

lemma node_name_ok: "node_ok node \<Longrightarrow> node_name node = Some name \<Longrightarrow> valid_name name"
  by (cases node) auto

lemma wf_update:
  "wf_key (MTree root) \<Longrightarrow> valid_name k \<Longrightarrow> wf_key v \<Longrightarrow> wf_key (MTree (AList.update k v root))"
proof -
  assume a: "wf_key (MTree root)" "valid_name k" "wf_key v"
  have "distinct (map fst (AList.update k v root))" using a(1) by (simp add: distinct_update)
  moreover have "set (AList.update k v root) \<subseteq> insert (k, v) (set root)"
    by (induction root) auto
  ultimately show ?thesis using a by auto
qed

lemma wf_lookup:
  "wf_key (MTree root) \<Longrightarrow> map_of root k = Some v \<Longrightarrow> wf_key v"
  by (auto dest: map_of_SomeD)

lemma wf_empty: "wf_key (MTree [])"
  by simp



lemma traverse_wf:
  "traverse d nodes root opts skp = Inr r \<Longrightarrow> wf_key (MTree root)
     \<Longrightarrow> \<forall>s \<in> set nodes. node_ok s \<Longrightarrow> frags_ok (fragments opts) \<Longrightarrow> wf_key (MTree r)"
proof (induction d nodes root opts skp arbitrary: r rule: traverse.induct)
  case (1 nodes root opts skp)
  then show ?case by simp
next
  case (2 d root opts skp)
  then show ?case by simp
next
  case (3 d node nodes root opts skp)
  note run = "3.prems"(1) and wf = "3.prems"(2) and fr = "3.prems"(4)
  have nok: "node_ok node" and rok: "\<forall>s \<in> set nodes. node_ok s"
    using "3.prems"(3) by simp_all
  have cok: "\<forall>s \<in> set (getNodes node). node_ok s"
    using nok by (rule getNodes_ok)
  show ?case
  proof (cases "withVars opts \<and> \<not> verifyDirectives (node_directives node) (vars opts)")
    case True
    then have "traverse (Suc d) nodes root opts skp = Inr r" using run by simp
    then show ?thesis using "3.IH"(1) [OF True _ wf rok fr] by blast
  next
    case dir: False
    show ?thesis
    proof (cases "node_name node")
      case None
      show ?thesis
      proof (cases "getNodes node \<noteq> []")
        case True
        then obtain root' where r1: "traverse d (getNodes node) root opts skp = Inr root'"
          and r2: "traverse (Suc d) nodes root' opts skp = Inr r"
          using run dir None by (simp split: sum.splits)
        have "wf_key (MTree root')"
          using "3.IH"(2) [OF dir None True r1 wf cok fr] .
        then show ?thesis
          using "3.IH"(3) [OF dir None True r1 r2 _ rok fr] by blast
      next
        case False
        then have "traverse (Suc d) nodes root opts skp = Inr r"
          using run dir None by simp
        then show ?thesis using "3.IH"(4) [OF dir None False _ wf rok fr] by blast
      qed
    next
      case (Some name)
      have vn: "valid_name name" using nok Some by (rule node_name_ok)
      show ?thesis
      proof (cases "fragments opts name")
        case (Some frag)
        then obtain root' where r1: "traverse d frag root opts skp = Inr root'"
          and r2: "traverse (Suc d) nodes root' opts skp = Inr r"
          using run dir \<open>node_name node = Some name\<close> by (simp split: sum.splits)
        have fok: "\<forall>s \<in> set frag. node_ok s" using fr Some unfolding frags_ok_def by blast
        have "wf_key (MTree root')"
          using "3.IH"(9) [OF dir \<open>node_name node = Some name\<close> Some r1 wf fok fr] .
        then show ?thesis
          using "3.IH"(10) [OF dir \<open>node_name node = Some name\<close> Some r1 r2 _ rok fr] by blast
      next
        case None
        note nm = \<open>node_name node = Some name\<close>
        from run dir nm None obtain b where vs: "verifySkip name skp = Inr b"
          by (cases "verifySkip name skp") simp_all
        show ?thesis
        proof (cases "b \<noteq> SBool True")
          case False
          then have "traverse (Suc d) nodes root opts skp = Inr r"
            using run dir nm None vs by simp
          then show ?thesis using "3.IH"(8) [OF dir nm None vs False _ wf rok fr] by blast
        next
          case nt: True
          show ?thesis
          proof (cases "getNodes node \<noteq> []")
            case True
            let ?m = "case map_of root name of None \<Rightarrow> [] | Some MFalse \<Rightarrow> []
                       | Some (MTree m) \<Rightarrow> m"
            obtain m' where r1: "traverse d (getNodes node) ?m opts b = Inr m'"
              and r2: "traverse (Suc d) nodes (AList.update name (MTree m') root) opts skp = Inr r"
              using run dir nm None vs nt True by (simp split: sum.splits)
            have wm: "wf_key (MTree ?m)"
              using wf wf_lookup [OF wf, of name] wf_empty
              by (auto split: option.splits map_result_key.splits simp del: wf_key.simps)
            have "wf_key (MTree m')"
              using "3.IH"(5) [OF dir nm None vs nt True r1 wm cok fr] .
            then have "wf_key (MTree (AList.update name (MTree m') root))"
              using wf vn by (simp add: wf_update del: wf_key.simps)
            then show ?thesis
              using "3.IH"(6) [OF dir nm None vs nt True r1 r2 _ rok fr] by blast
          next
            case False
            let ?v = "case map_of root name of None \<Rightarrow> MFalse | Some MFalse \<Rightarrow> MFalse
                       | Some (MTree xa) \<Rightarrow> MTree xa"
            have r2: "traverse (Suc d) nodes (AList.update name ?v root) opts skp = Inr r"
              using run dir nm None vs nt False by simp
            have "wf_key ?v"
              using wf_lookup [OF wf, of name] wf_key.simps(1)
              by (auto split: option.splits map_result_key.splits simp del: wf_key.simps)
            then have "wf_key (MTree (AList.update name ?v root))"
              using wf vn by (simp add: wf_update del: wf_key.simps)
            then show ?thesis
              using "3.IH"(7) [OF dir nm None vs nt False r2 _ rok fr] by blast
          qed
        qed
      qed
    qed
  qed
qed


section \<open>The projection flattener\<close>

lemma projection_keys_stack:
  "fst (projection_keys options node tree (stack, m)) =
     stack @ map (\<lambda>(j, v). (toDotNotation node j, case v of MTree sub \<Rightarrow> sub | MFalse \<Rightarrow> []))
               (filter (\<lambda>(j, v). v \<noteq> MFalse) tree)"
  by (induction options node tree "(stack, m)" arbitrary: stack m rule: projection_keys.induct)
     auto

lemma projection_keys_keeps:
  "map_of m k = Some 1
     \<Longrightarrow> map_of (snd (projection_keys options node tree (stack, m))) k = Some 1"
  by (induction options node tree "(stack, m)" arbitrary: stack m rule: projection_keys.induct)
     (simp_all add: update_conv')

lemma projection_keys_parent:
  "keeps_parent options \<Longrightarrow> (j, MTree sub) \<in> set tree
     \<Longrightarrow> map_of (snd (projection_keys options node tree (stack, m))) (toDotNotation node j)
           = Some 1"
proof (induction options node tree "(stack, m)" arbitrary: stack m rule: projection_keys.induct)
  case (1 options node stack m)
  then show ?case by simp
next
  case (2 options node j' sub' rest stack m)
  show ?case
  proof (cases "(j, MTree sub) \<in> set rest")
    case True
    with 2 show ?thesis by simp
  next
    case False
    with 2(3) have "j = j'" by auto
    then show ?thesis
      using 2(2) projection_keys_keeps [of "AList.update (toDotNotation node j') 1 m"
          "toDotNotation node j'" options node rest]
      by (simp add: update_conv')
  qed
next
  case (3 options node j' rest stack m)
  then show ?case by simp
qed

lemma projection_loop_keeps:
  "map_of m k = Some 1 \<Longrightarrow> map_of (projection_loop options stack m) k = Some 1"
proof (induction options stack m rule: projection_loop.induct)
  case (1 options m)
  then show ?case by simp
next
  case (2 options node tree stack m)
  obtain stack' m' where pk: "projection_keys options node tree ((node, tree) # stack, m) = (stack', m')"
    by (cases "projection_keys options node tree ((node, tree) # stack, m)")
  have "map_of m' k = Some 1"
    using projection_keys_keeps [OF 2(2), of options node tree "(node, tree) # stack"] pk by simp
  then show ?case using 2(1) [OF pk [symmetric]] pk by simp
qed

lemma projection_loop_parent:
  "keeps_parent options \<Longrightarrow> (node, tree) \<in> set stack \<Longrightarrow> inner_path tree p
     \<Longrightarrow> map_of (projection_loop options stack m) (foldl toDotNotation node p) = Some 1"
proof (induction options stack m arbitrary: node tree p rule: projection_loop.induct)
  case (1 options m)
  then show ?case by simp
next
  case (2 options node0 tree0 stack m)
  obtain stack' m' where pk:
    "projection_keys options node0 tree0 ((node0, tree0) # stack, m) = (stack', m')"
    by (cases "projection_keys options node0 tree0 ((node0, tree0) # stack, m)")
  have loop: "projection_loop options ((node0, tree0) # stack) m
      = projection_loop options (tl stack') m'"
    using pk by simp
  have tl: "tl stack' = stack @ map (\<lambda>(j, v). (toDotNotation node0 j, case v of MTree sub \<Rightarrow> sub | MFalse \<Rightarrow> []))
               (filter (\<lambda>(j, v). v \<noteq> MFalse) tree0)"
    using projection_keys_stack [of options node0 tree0 "(node0, tree0) # stack" m] pk by simp
  show ?case
  proof (cases "(node, tree) \<in> set stack")
    case True
    then have "(node, tree) \<in> set (tl stack')" using tl by simp
    then show ?thesis using "2.IH" [OF pk [symmetric] "2.prems"(1) _ "2.prems"(3)] loop by simp
  next
    case False
    with "2.prems"(2) have eq: "node = node0" "tree = tree0" by auto
    from "2.prems"(3) show ?thesis
    proof (cases rule: inner_path.cases)
      case (inner_here k sub)
      then have "map_of m' (toDotNotation node0 k) = Some 1"
        using projection_keys_parent [OF "2.prems"(1), of k sub tree0 node0 "(node0, tree0) # stack" m]
          pk eq by (simp del: toDotNotation.simps)
      then show ?thesis using loop inner_here eq projection_loop_keeps
        by (simp del: toDotNotation.simps)
    next
      case (inner_below k sub q)
      from inner_below(2) eq have "(k, MTree sub) \<in> set (filter (\<lambda>(j, v). v \<noteq> MFalse) tree0)"
        by simp
      then have "(\<lambda>(j, v). (toDotNotation node0 j, case v of MTree sub \<Rightarrow> sub | MFalse \<Rightarrow> [])) (k, MTree sub)
          \<in> set (tl stack')"
        unfolding tl set_append set_map by blast
      then have mem: "(toDotNotation node0 k, sub) \<in> set (tl stack')"
        by (simp del: toDotNotation.simps)
      have "map_of (projection_loop options (tl stack') m') (foldl toDotNotation (toDotNotation node0 k) q) = Some 1"
        by (rule "2.IH" [OF pk [symmetric] "2.prems"(1) mem inner_below(3)])
      then show ?thesis using loop inner_below(1) eq by (simp del: toDotNotation.simps)
    qed
  qed
qed

text \<open>
  C10.  With parent retention, every intermediate key of the presence map is a key of the
  projection under its own dot-path, built from the original names: the transform table,
  whatever it holds for that path, is consulted for leaves only.
\<close>

theorem parents_untransformed:
  "keeps_parent options \<and> fieldsMap d info options = Inr tree \<and> inner_path tree p \<longrightarrow>
     (\<exists>proj. fieldsProjection d info options = Inr proj
        \<and> map_of proj (foldl toDotNotation [] p) = Some 1)"
  using projection_loop_parent [of options "[]" tree "[([], tree)]" p "[]"]
  by (simp del: fieldsMap.simps)

theorem parents_untransformed_witness:
  "fieldsProjection 2
     (Some \<lparr> fieldNodes = Some [Field ''q'' [] (Some [Field ''a'' [] (Some [Field ''b'' [] None])])],
             fieldASTs = None, fieldName = ''q'',
             info_fragments = Map.empty, variableValues = Map.empty \<rparr>)
     (Some \<lparr> path = None, transform = Some [''a'' \<mapsto> ''x'', ''a.b'' \<mapsto> ''y''],
             withDirectives = None, keepParentField = Some True, skip = None \<rparr>)
   = Inr [(''a'', 1), (''y'', 1)]"
proof -
  let ?info = "Some \<lparr> fieldNodes = Some [Field ''q'' [] (Some [Field ''a'' [] (Some [Field ''b'' [] None])])],
             fieldASTs = None, fieldName = ''q'',
             info_fragments = Map.empty, variableValues = Map.empty \<rparr>"
  let ?opts = "Some \<lparr> path = None, transform = Some [''a'' \<mapsto> ''x'', ''a.b'' \<mapsto> ''y''],
             withDirectives = None, keepParentField = Some True, skip = None \<rparr>"
  have m: "fieldsMap 2 ?info ?opts = Inr [(''a'', MTree [(''b'', MFalse)])]"
    by (simp add: skipTree_def numeral_2_eq_2)
  have ip: "inner_path [(''a'', MTree [(''b'', MFalse)])] [''a'']"
    by (rule inner_here [where sub = "[(''b'', MFalse)]"]) simp
  have "\<exists>proj. fieldsProjection 2 ?info ?opts = Inr proj \<and> map_of proj ''a'' = Some 1"
    using parents_untransformed [of ?opts 2 ?info "[(''a'', MTree [(''b'', MFalse)])]" "[''a'']"]
      m ip by simp
  moreover have "fieldsProjection 2 ?info ?opts = Inr [(''a'', 1), (''y'', 1)]"
    unfolding fieldsProjection.simps m by simp
  ultimately show ?thesis by simp
qed

section \<open>Entries of the projection\<close>

lemma key_size_pos: "0 < key_size (MTree kvs)"
  by simp




lemma rec_paths_Nil: "rec_paths keep (MTree []) = []"
  by simp








lemma dot_path_snoc:
  "foldl toDotNotation [] (ps @ [j]) = toDotNotation (foldl toDotNotation [] ps) j"
  by simp











section \<open>Inlining fragments\<close>

lemma reachable_Nil: "reachable F [] p = False"
  by (simp add: reachable_def)

lemma reachable_Cons: "reachable F (s # nodes) p = (reach F s p \<or> reachable F nodes p)"
  by (simp add: reachable_def)

lemma map_path_Nil: "map_path [] p = False"
  by (subst map_path.simps) simp

lemma map_path_iff:
  "map_path m p = (\<exists>k v. (k, v) \<in> set m \<and>
      (p = [k] \<or> (\<exists>sub q. v = MTree sub \<and> p = k # q \<and> map_path sub q)))"
  by (subst map_path.simps) blast

lemma set_update_distinct:
  "distinct (map fst m) \<Longrightarrow>
     set (AList.update k v m) = insert (k, v) {kv \<in> set m. fst kv \<noteq> k}"
  by (induction m) (auto simp: rev_image_eqI)

lemma map_path_update:
  assumes "distinct (map fst m)"
  shows "map_path (AList.update k v m) p =
     (p = [k] \<or> (\<exists>sub q. v = MTree sub \<and> p = k # q \<and> map_path sub q)
      \<or> (map_path m p \<and> hd p \<noteq> k))"
proof -
  have "map_path (AList.update k v m) p =
      (\<exists>k' v'. ((k', v') = (k, v) \<or> ((k', v') \<in> set m \<and> k' \<noteq> k)) \<and>
        (p = [k'] \<or> (\<exists>sub q. v' = MTree sub \<and> p = k' # q \<and> map_path sub q)))"
    unfolding map_path_iff [of "AList.update k v m"] set_update_distinct [OF assms] by simp
  also have "\<dots> = (p = [k] \<or> (\<exists>sub q. v = MTree sub \<and> p = k # q \<and> map_path sub q)
      \<or> ((\<exists>k' v'. (k', v') \<in> set m \<and>
        (p = [k'] \<or> (\<exists>sub q. v' = MTree sub \<and> p = k' # q \<and> map_path sub q))) \<and> hd p \<noteq> k))"
    by (rule iffI) (elim exE conjE disjE; force)+
  finally show ?thesis unfolding map_path_iff [of m] .
qed

lemma reach_field_iff:
  "reach F (Field n ds ss) p =
     (p = [n] \<or> (\<exists>sels s q. ss = Some sels \<and> s \<in> set sels \<and> reach F s q \<and> p = n # q))"
  by (subst reach.simps) auto

lemma reach_spread_undefined: "F n = None \<Longrightarrow> reach F (FragmentSpread n ds) p = False"
  by (subst reach.simps) simp

lemma reach_spread_iff:
  "F n = Some sels \<Longrightarrow> reach F (FragmentSpread n ds) p = reachable F sels p"
  by (subst reach.simps) (auto simp: reachable_def)

lemma reach_inline_iff: "reach F (InlineFragment ds sels) p = reachable F sels p"
  by (subst reach.simps) (auto simp: reachable_def)

lemma map_path_empty: "map_path m [] = False"
  by (subst map_path.simps) simp

lemma reach_nonempty: "reach F s p \<Longrightarrow> p \<noteq> []"
  by (induction rule: reach.induct) simp_all

lemma reachable_nonempty: "reachable F nodes p \<Longrightarrow> p \<noteq> []"
  unfolding reachable_def using reach_nonempty by blast

lemma map_of_distinct_iff:
  "distinct (map fst m) \<Longrightarrow> ((k, v) \<in> set m) = (map_of m k = Some v)"
  by (auto dest: map_of_SomeD)

lemma map_path_Cons_distinct:
  assumes "distinct (map fst m)"
  shows "map_path m (k # q) =
     (if q = [] then k \<in> fst ` set m
      else map_path (case map_of m k of Some (MTree sub) \<Rightarrow> sub | _ \<Rightarrow> []) q)"
proof (cases "q = []")
  case True
  have "map_path m [k] = (\<exists>v. (k, v) \<in> set m)"
    unfolding map_path_iff [of m] by (auto simp: map_path_empty)
  then show ?thesis using True by force
next
  case False
  have "map_path m (k # q) = (\<exists>sub. (k, MTree sub) \<in> set m \<and> map_path sub q)"
    unfolding map_path_iff [of m] using False by auto
  also have "\<dots> = (\<exists>sub. map_of m k = Some (MTree sub) \<and> map_path sub q)"
    by (simp add: map_of_distinct_iff [OF assms])
  also have "\<dots> = map_path (case map_of m k of Some (MTree sub) \<Rightarrow> sub | _ \<Rightarrow> []) q"
    by (auto simp: map_path_Nil split: option.splits map_result_key.splits)
  finally show ?thesis using False by simp
qed

lemma verifySkip_no_rules:
  "skp = STree [] \<or> skp = SBool False \<Longrightarrow> verifySkip name skp = Inr (SBool False)"
  by auto

text \<open>Adding a field with the given children sub-map to a level.\<close>

lemma map_path_add_field:
  assumes d: "distinct (map fst root)"
    and sub: "\<And>q. map_path m' q = (map_path (case map_of root name of Some (MTree m) \<Rightarrow> m | _ \<Rightarrow> []) q \<or> R q)"
    and R: "\<And>q. R q \<Longrightarrow> q \<noteq> []"
  shows "map_path (AList.update name (MTree m') root) p =
     (map_path root p \<or> p = [name] \<or> (\<exists>q. p = name # q \<and> R q))"
proof (cases p)
  case Nil
  then show ?thesis by (simp add: map_path_empty)
next
  case (Cons k q)
  have d': "distinct (map fst (AList.update name (MTree m') root))"
    using d by (simp add: distinct_update)
  show ?thesis
  proof (cases "k = name")
    case True
    show ?thesis
      unfolding Cons True map_path_Cons_distinct [OF d'] map_path_Cons_distinct [OF d]
      using sub R by (auto simp: update_conv' dom_update)
  next
    case False
    show ?thesis
      unfolding Cons map_path_Cons_distinct [OF d'] map_path_Cons_distinct [OF d]
      using False by (auto simp: update_conv' dom_update)
  qed
qed

lemma map_path_add_leaf:
  assumes d: "distinct (map fst root)"
  shows "map_path (AList.update name
            (case map_of root name of None \<Rightarrow> MFalse | Some MFalse \<Rightarrow> MFalse
             | Some (MTree xa) \<Rightarrow> MTree xa) root) p =
     (map_path root p \<or> p = [name])"
proof (cases p)
  case Nil
  then show ?thesis by (simp add: map_path_empty)
next
  case (Cons k q)
  let ?v = "case map_of root name of None \<Rightarrow> MFalse | Some MFalse \<Rightarrow> MFalse
             | Some (MTree xa) \<Rightarrow> MTree xa"
  have d': "distinct (map fst (AList.update name ?v root))"
    using d by (simp add: distinct_update)
  show ?thesis
    unfolding Cons map_path_Cons_distinct [OF d'] map_path_Cons_distinct [OF d]
    by (auto simp: update_conv' dom_update map_path_Nil split: option.splits map_result_key.splits)
qed

lemma plain_getNodes: "plain_node F node \<Longrightarrow> \<forall>s \<in> set (getNodes node). plain_node F s"
  by (cases node rule: getNodes.cases) auto

lemma plain_directives: "plain_node F node \<Longrightarrow> node_directives node = []"
  by (cases node) auto

lemma wf_distinct: "wf_key (MTree m) \<Longrightarrow> distinct (map fst m)"
  by simp

lemma traverse_paths:
  "traverse d nodes root opts skp = Inr r \<Longrightarrow> skp = STree [] \<or> skp = SBool False
     \<Longrightarrow> wf_key (MTree root)
     \<Longrightarrow> \<forall>s \<in> set nodes. node_ok s \<and> plain_node (fragments opts) s
     \<Longrightarrow> frags_ok (fragments opts) \<Longrightarrow> plain_table (fragments opts)
     \<Longrightarrow> map_path r p = (map_path root p \<or> reachable (fragments opts) nodes p)"
proof (induction d nodes root opts skp arbitrary: r p rule: traverse.induct)
  case (1 nodes root opts skp)
  then show ?case by simp
next
  case (2 d root opts skp)
  then show ?case by (simp add: reachable_Nil)
next
  case (3 d node nodes root opts skp)
  let ?F = "fragments opts"
  note run = "3.prems"(1) and sk = "3.prems"(2) and wf = "3.prems"(3)
    and fr = "3.prems"(5) and pt = "3.prems"(6)
  have nok: "node_ok node" and npl: "plain_node ?F node"
    and rok: "\<forall>s \<in> set nodes. node_ok s \<and> plain_node ?F s"
    using "3.prems"(4) by simp_all
  have rok': "\<forall>s \<in> set nodes. node_ok s" using rok by blast
  have cok': "\<forall>s \<in> set (getNodes node). node_ok s" using nok by (rule getNodes_ok)
  have cok: "\<forall>s \<in> set (getNodes node). node_ok s \<and> plain_node ?F s"
    using cok' plain_getNodes [OF npl] by blast
  have dir: "\<not> (withVars opts \<and> \<not> verifyDirectives (node_directives node) (vars opts))"
    using plain_directives [OF npl] by simp
  show ?case
  proof (cases "node_name node")
    case None
    then obtain ds sels where node: "node = InlineFragment ds sels" by (cases node) auto
    show ?thesis
    proof (cases "getNodes node \<noteq> []")
      case True
      then obtain root' where r1: "traverse d (getNodes node) root opts skp = Inr root'"
        and r2: "traverse (Suc d) nodes root' opts skp = Inr r"
        using run dir None by (simp split: sum.splits)
      have wf': "wf_key (MTree root')" using traverse_wf [OF r1 wf cok' fr] .
      have a: "\<And>q. map_path root' q = (map_path root q \<or> reachable ?F (getNodes node) q)"
        using "3.IH"(2) [OF dir None True r1 sk wf cok fr pt] .
      have b: "map_path r p = (map_path root' p \<or> reachable ?F nodes p)"
        using "3.IH"(3) [OF dir None True r1 r2 sk wf' rok fr pt] .
      show ?thesis unfolding b a reachable_Cons using node by (simp add: reach_inline_iff)
    next
      case False
      then have r2: "traverse (Suc d) nodes root opts skp = Inr r"
        using run dir None by simp
      have b: "map_path r p = (map_path root p \<or> reachable ?F nodes p)"
        using "3.IH"(4) [OF dir None False r2 sk wf rok fr pt] .
      show ?thesis unfolding b reachable_Cons using node False
        by (simp add: reach_inline_iff reachable_Nil)
    qed
  next
    case (Some name)
    note nm = Some
    have vn: "valid_name name" using nok nm by (rule node_name_ok)
    show ?thesis
    proof (cases "?F name")
      case (Some frag)
      then obtain ds where node: "node = FragmentSpread name ds"
        using npl nm by (cases node) auto
      obtain root' where r1: "traverse d frag root opts skp = Inr root'"
        and r2: "traverse (Suc d) nodes root' opts skp = Inr r"
        using run dir nm Some by (simp split: sum.splits)
      have fok': "\<forall>s \<in> set frag. node_ok s" using fr Some unfolding frags_ok_def by blast
      have fok: "\<forall>s \<in> set frag. node_ok s \<and> plain_node ?F s"
        using fok' pt Some unfolding plain_table_def by blast
      have wf': "wf_key (MTree root')" using traverse_wf [OF r1 wf fok' fr] .
      have a: "\<And>q. map_path root' q = (map_path root q \<or> reachable ?F frag q)"
        using "3.IH"(9) [OF dir nm Some r1 sk wf fok fr pt] .
      have b: "map_path r p = (map_path root' p \<or> reachable ?F nodes p)"
        using "3.IH"(10) [OF dir nm Some r1 r2 sk wf' rok fr pt] .
      show ?thesis unfolding b a reachable_Cons node
        by (simp add: reach_spread_iff [of "fragments opts" name frag, OF Some])
    next
      case None
      then obtain ds ss where node: "node = Field name ds ss"
        using npl nm by (cases node) auto
      have vs: "verifySkip name skp = Inr (SBool False)"
        using sk by (rule verifySkip_no_rules)
      have nt: "SBool False \<noteq> SBool True" by simp
      have sk': "SBool False = STree [] \<or> SBool False = SBool False" by simp
      have dr: "distinct (map fst root)" using wf by (rule wf_distinct)
      show ?thesis
      proof (cases "getNodes node \<noteq> []")
        case True
        let ?m = "case map_of root name of None \<Rightarrow> [] | Some MFalse \<Rightarrow> []
                   | Some (MTree m) \<Rightarrow> m"
        obtain m' where r1: "traverse d (getNodes node) ?m opts (SBool False) = Inr m'"
          and r2: "traverse (Suc d) nodes (AList.update name (MTree m') root) opts skp = Inr r"
          using run dir nm None vs True by (simp split: sum.splits)
        have wm: "wf_key (MTree ?m)"
          using wf wf_lookup [OF wf, of name] wf_empty
          by (auto split: option.splits map_result_key.splits simp del: wf_key.simps)
        have wm': "wf_key (MTree m')" using traverse_wf [OF r1 wm cok' fr] .
        have wu: "wf_key (MTree (AList.update name (MTree m') root))"
          using wf vn wm' by (rule wf_update)
        have a: "\<And>q. map_path m' q = (map_path ?m q \<or> reachable ?F (getNodes node) q)"
          using "3.IH"(5) [OF dir nm None vs nt True r1 sk' wm cok fr pt] .
        have b: "map_path r p
            = (map_path (AList.update name (MTree m') root) p \<or> reachable ?F nodes p)"
          using "3.IH"(6) [OF dir nm None vs nt True r1 r2 sk wu rok fr pt] .
        have c: "map_path (AList.update name (MTree m') root) p =
            (map_path root p \<or> p = [name]
              \<or> (\<exists>q. p = name # q \<and> reachable ?F (getNodes node) q))"
          using dr a reachable_nonempty by (rule map_path_add_field)
        have e: "reach ?F node p = (p = [name]
              \<or> (\<exists>q. p = name # q \<and> reachable ?F (getNodes node) q))"
          unfolding node reach_field_iff reachable_def by (cases ss) auto
        show ?thesis unfolding b c reachable_Cons e by blast
      next
        case False
        let ?v = "case map_of root name of None \<Rightarrow> MFalse | Some MFalse \<Rightarrow> MFalse
                   | Some (MTree xa) \<Rightarrow> MTree xa"
        have r2: "traverse (Suc d) nodes (AList.update name ?v root) opts skp = Inr r"
          using run dir nm None vs False by simp
        have wv: "wf_key ?v"
          using wf_lookup [OF wf, of name] wf_key.simps(1)
          by (auto split: option.splits map_result_key.splits simp del: wf_key.simps)
        have wu: "wf_key (MTree (AList.update name ?v root))"
          using wf vn wv by (rule wf_update)
        have b: "map_path r p = (map_path (AList.update name ?v root) p \<or> reachable ?F nodes p)"
          using "3.IH"(7) [OF dir nm None vs nt False r2 sk wu rok fr pt] .
        have c: "map_path (AList.update name ?v root) p = (map_path root p \<or> p = [name])"
          using dr by (rule map_path_add_leaf)
        have e: "reach ?F node p = (p = [name])"
          unfolding node reach_field_iff using False node by (cases ss) auto
        show ?thesis unfolding b c reachable_Cons e by blast
      qed
    qed
  qed
qed

text \<open>
  On selections whose node kinds agree with the fragment table, without directives and with
  no skip patterns, a walk that returns builds exactly the reachable paths, and every level
  has distinct keys.
\<close>

lemma walker_inlines_fragments:
  assumes "traverse d nodes [] opts (STree []) = Inr r"
    and "\<forall>s \<in> set nodes. node_ok s \<and> plain_node (fragments opts) s"
    and "frags_ok (fragments opts)" and "plain_table (fragments opts)"
  shows "wf_key (MTree r) \<and> (\<forall>p. map_path r p = reachable (fragments opts) nodes p)"
proof -
  have ok: "\<forall>s \<in> set nodes. node_ok s" using assms(2) by blast
  have "wf_key (MTree r)" using traverse_wf [OF assms(1) wf_empty ok assms(3)] .
  moreover have "map_path r p = reachable (fragments opts) nodes p" for p
    using traverse_paths [OF assms(1) _ wf_empty assms(2,3,4), of p]
    by (simp add: map_path_Nil)
  ultimately show ?thesis by blast
qed

text \<open>
  C1.  The walker decides by name alone whether a node is a fragment spread, while it
  decides by kind whether it is an inline fragment.  A field named like a fragment of the
  table is therefore replaced by that fragment's selections: for the selection
  \<^verbatim>\<open>{ user { id } }\<close> and a table with a fragment \<^verbatim>\<open>user\<close> selecting \<^verbatim>\<open>email\<close>, the
  presence map is \<^verbatim>\<open>{ email: false }\<close>.  The reachable paths \<^verbatim>\<open>user\<close> and \<^verbatim>\<open>user.id\<close>
  are missing from it, and \<^verbatim>\<open>email\<close>, which no inlining reaches, is in it.
\<close>

theorem field_named_like_fragment:
  "fieldsMap (Suc (Suc d))
     (Some \<lparr> fieldNodes = Some [Field ''q'' [] (Some [Field ''user'' [] (Some [Field ''id'' [] None])])],
             fieldASTs = None, fieldName = ''q'',
             info_fragments = [''user'' \<mapsto> [Field ''email'' [] None]],
             variableValues = vs \<rparr>)
     None
     = Inr [(''email'', MFalse)]
   \<and> reachable [''user'' \<mapsto> [Field ''email'' [] None]]
        [Field ''user'' [] (Some [Field ''id'' [] None])] [''user'']
   \<and> reachable [''user'' \<mapsto> [Field ''email'' [] None]]
        [Field ''user'' [] (Some [Field ''id'' [] None])] [''user'', ''id'']
   \<and> \<not> map_path [(''email'', MFalse)] [''user'']
   \<and> \<not> map_path [(''email'', MFalse)] [''user'', ''id'']
   \<and> map_path [(''email'', MFalse)] [''email'']
   \<and> \<not> reachable [''user'' \<mapsto> [Field ''email'' [] None]]
        [Field ''user'' [] (Some [Field ''id'' [] None])] [''email'']"
proof -
  let ?F = "[''user'' \<mapsto> [Field ''email'' [] None]]"
  have 1: "fieldsMap (Suc (Suc d))
     (Some \<lparr> fieldNodes = Some [Field ''q'' [] (Some [Field ''user'' [] (Some [Field ''id'' [] None])])],
             fieldASTs = None, fieldName = ''q'',
             info_fragments = ?F, variableValues = vs \<rparr>)
     None
     = Inr [(''email'', MFalse)]"
    by (simp add: skipTree_def no_options_def)
  have 2: "reachable ?F [Field ''user'' [] (Some [Field ''id'' [] None])] [''user'']"
    unfolding reachable_def by (simp add: reach_field)
  have "reach ?F (Field ''id'' [] None) [''id'']" by (rule reach_field)
  then have "reach ?F (Field ''user'' [] (Some [Field ''id'' [] None])) [''user'', ''id'']"
    by (intro reach_child [where s = "Field ''id'' [] None"]) simp_all
  then have 3: "reachable ?F [Field ''user'' [] (Some [Field ''id'' [] None])] [''user'', ''id'']"
    unfolding reachable_def by simp
  have 4: "\<not> map_path [(''email'', MFalse)] [''user'']"
    by (subst map_path.simps) simp
  have 5: "\<not> map_path [(''email'', MFalse)] [''user'', ''id'']"
    by (subst map_path.simps) simp
  have 6: "map_path [(''email'', MFalse)] [''email'']"
    by (rule path_key [where v = MFalse]) simp
  have 7: "\<not> reachable ?F [Field ''user'' [] (Some [Field ''id'' [] None])] [''email'']"
    unfolding reachable_def by (simp add: reach_field_iff)
  from 1 2 3 4 5 6 7 show ?thesis by (simp only: simp_thms)
qed

end
